theory Spec2Isabelle
  imports Main "HOL-Library.Word" "HOL-Library.Monad_Syntax"
begin

section \<open>Platform types\<close>

text \<open>
  The embedding fixes the usual LP64 platform of the program: \<open>size_t\<close> is an unsigned
  64-bit word, \<open>int\<close> and \<open>unsigned\<close> are 32-bit words, and \<open>std::streamoff\<close> /
  \<open>std::streamsize\<close> are 64-bit words read as two's complement through \<open>sint\<close>.
  A conversion between integer types of the same width keeps the bits; a narrowing
  conversion keeps the low bits (\<open>ucast\<close>); \<open>int\<close> to \<open>size_t\<close> sign-extends (\<open>scast\<close>).
\<close>

type_synonym byte = "8 word"
type_synonym size_t = "64 word"
type_synonym streamoff = "64 word"
type_synonym c_int = "32 word"
type_synonym c_unsigned = "32 word"

section \<open>The file stream \<open>std::fstream\<close>\<close>

text \<open>
  The stream \<open>_file\<close> is modelled by the logical contents of the file it is opened on
  (what a reader of the file sees once the stream's buffer is written out), the one file
  position of its \<open>filebuf\<close>, and the three bits of its \<open>iostate\<close>. The medium
  itself never fails: the failures of the model are a seek the file refuses, a read past
  the end of the file and a transfer of negative size.
\<close>

record fstream =
  bytes :: "byte list"
  pos :: nat
  eofbit :: bool
  failbit :: bool
  badbit :: bool

text \<open>\<open>basic_ios::good()\<close>: no bit is set. \<open>basic_ios::fail()\<close>: failbit or badbit.\<close>

definition fs_good :: "fstream \<Rightarrow> bool" where
  "fs_good f \<longleftrightarrow> \<not> eofbit f \<and> \<not> failbit f \<and> \<not> badbit f"

definition fs_fail :: "fstream \<Rightarrow> bool" where
  "fs_fail f \<longleftrightarrow> failbit f \<or> badbit f"

text \<open>\<open>tellg()\<close>: the position, or \<open>pos_type(-1)\<close> when \<open>fail()\<close>.\<close>

definition tellg :: "fstream \<Rightarrow> streamoff" where
  "tellg f = (if fs_fail f then - 1 else of_nat (pos f))"

text \<open>
  \<open>seekg(pos)\<close> clears eofbit, then does nothing when \<open>fail()\<close>; a negative offset is
  refused by the file (the seek returns \<open>-1\<close>) and sets failbit.
  \<open>seekg(0, ios::end)\<close> moves to the end of the file.
\<close>

definition seekg :: "streamoff \<Rightarrow> fstream \<Rightarrow> fstream" where
  "seekg off f =
     (let f1 = f\<lparr>eofbit := False\<rparr> in
      if fs_fail f1 then f1
      else if sint off < 0 then f1\<lparr>failbit := True\<rparr>
      else f1\<lparr>pos := unat off\<rparr>)"

definition seekg_end :: "fstream \<Rightarrow> fstream" where
  "seekg_end f =
     (let f1 = f\<lparr>eofbit := False\<rparr> in
      if fs_fail f1 then f1 else f1\<lparr>pos := length (bytes f1)\<rparr>)"

text \<open>\<open>seekp(pos)\<close>: nothing when \<open>fail()\<close>; failbit on a negative offset.\<close>

definition seekp :: "streamoff \<Rightarrow> fstream \<Rightarrow> fstream" where
  "seekp off f =
     (if fs_fail f then f
      else if sint off < 0 then f\<lparr>failbit := True\<rparr>
      else f\<lparr>pos := unat off\<rparr>)"

text \<open>
  Writing \<open>xs\<close> at byte offset \<open>off\<close> of a file: the bytes from \<open>off\<close> on are replaced,
  the file grows when the written range ends beyond its end, and a gap between the old
  end of the file and \<open>off\<close> reads as zero bytes. Writing no byte changes nothing.
\<close>

definition pwrite :: "nat \<Rightarrow> byte list \<Rightarrow> byte list \<Rightarrow> byte list" where
  "pwrite off xs content =
     (if xs = [] then content
      else take off content @ replicate (off - length content) 0 @ xs
           @ drop (off + length xs) content)"

section \<open>Memory\<close>

text \<open>
  The arrays the program reads and writes through pointers live in an explicit store:
  a pointer is the address of an array, \<open>arrays m p\<close> is the contents of the array at
  \<open>p\<close> (\<open>None\<close> when no array lives there), and \<open>lim m\<close> is the next unused address.
  An access outside an array is undefined behaviour; every operation that could make one
  returns \<open>None\<close> there.
\<close>

record memory =
  arrays :: "nat \<rightharpoonup> byte list"
  lim :: nat

definition wf_memory :: "memory \<Rightarrow> bool" where
  "wf_memory m \<longleftrightarrow> (\<forall>p. lim m \<le> p \<longrightarrow> arrays m p = None)"

text \<open>
  \<open>new char[n]\<close>: a fresh array, its indeterminate contents modelled as zeros. The
  memory is unbounded: an allocation never fails.
\<close>

definition new_array :: "nat \<Rightarrow> memory \<Rightarrow> nat \<times> memory" where
  "new_array n m =
     (lim m, m\<lparr>arrays := (arrays m)(lim m \<mapsto> replicate n 0), lim := Suc (lim m)\<rparr>)"

text \<open>\<open>delete[] p\<close>.\<close>

definition delete_array :: "nat \<Rightarrow> memory \<Rightarrow> memory" where
  "delete_array p m = m\<lparr>arrays := (arrays m)(p := None)\<rparr>"

text \<open>\<open>memcpy(dst, src, n)\<close>: both arrays must hold at least \<open>n\<close> bytes.\<close>

definition memcpy :: "nat \<Rightarrow> nat \<Rightarrow> nat \<Rightarrow> memory \<Rightarrow> memory option" where
  "memcpy dst src n m =
     do {
       s \<leftarrow> arrays m src;
       t \<leftarrow> arrays m dst;
       if n \<le> length s \<and> n \<le> length t
       then Some (m\<lparr>arrays := (arrays m)(dst \<mapsto> take n s @ drop n t)\<rparr>)
       else None
     }"

text \<open>
  \<open>_file.read(d, n)\<close>: when the stream is not good the sentry sets failbit and nothing
  is read. Otherwise the bytes available from the position on, at most \<open>n\<close>, are copied
  to the front of the array at \<open>d\<close>, and a count other than \<open>n\<close> sets eofbit and
  failbit. A negative \<open>streamsize\<close> transfers nothing.
\<close>

definition fs_read :: "nat \<Rightarrow> streamoff \<Rightarrow> fstream \<Rightarrow> memory \<Rightarrow> (fstream \<times> memory) option" where
  "fs_read d n f m =
     (if \<not> fs_good f then Some (f\<lparr>failbit := True\<rparr>, m)
      else
        do {
          a \<leftarrow> arrays m d;
          let k = (if sint n < 0 then 0 else min (unat n) (length (bytes f) - pos f));
          let got = take k (drop (pos f) (bytes f));
          let f1 = f\<lparr>pos := pos f + k\<rparr>;
          if length a < k then None
          else Some (if int k = sint n then f1 else f1\<lparr>eofbit := True, failbit := True\<rparr>,
                     m\<lparr>arrays := (arrays m)(d \<mapsto> got @ drop k a)\<rparr>)
        })"

text \<open>
  \<open>_file.write(d, n)\<close>: nothing when the stream is not good; a negative \<open>streamsize\<close>
  writes nothing and sets badbit; otherwise the first \<open>n\<close> bytes of the array at \<open>d\<close>
  are written at the position. \<open>_file.put(c)\<close> writes the one byte \<open>c\<close>.
\<close>

definition fs_write :: "nat \<Rightarrow> streamoff \<Rightarrow> fstream \<Rightarrow> memory \<Rightarrow> fstream option" where
  "fs_write d n f m =
     (if \<not> fs_good f then Some f
      else if sint n < 0 then Some (f\<lparr>badbit := True\<rparr>)
      else
        do {
          a \<leftarrow> arrays m d;
          if length a < unat n then None
          else Some (f\<lparr>bytes := pwrite (pos f) (take (unat n) a) (bytes f),
                       pos := pos f + unat n\<rparr>)
        })"

definition fs_put :: "byte \<Rightarrow> fstream \<Rightarrow> fstream" where
  "fs_put c f =
     (if \<not> fs_good f then f
      else f\<lparr>bytes := pwrite (pos f) [c] (bytes f), pos := pos f + 1\<rparr>)"

text \<open>\<open>_file.flush()\<close> writes the stream's buffer out: the logical contents stay.\<close>

definition fs_flush :: "fstream \<Rightarrow> fstream" where
  "fs_flush f = f"

section \<open>Opening the file\<close>

text \<open>
  What the file system holds under a path: a file that opens for reading and writing,
  with its contents; no file, in a place where one can be created; or a path that can
  neither be opened nor created.
\<close>

datatype fsentry = Existing "byte list" | Creatable | Inaccessible

type_synonym filesystem = "string \<Rightarrow> fsentry"

text \<open>
  Opening with \<open>in | out | binary\<close> does not create a file; adding \<open>trunc\<close> creates it,
  or empties the one that is there. A failed open sets failbit; a successful one leaves
  a good stream at position 0.
\<close>

definition closed_stream :: fstream where
  "closed_stream = \<lparr>bytes = [], pos = 0, eofbit = False, failbit = True, badbit = False\<rparr>"

definition open_stream :: "byte list \<Rightarrow> fstream" where
  "open_stream content =
     \<lparr>bytes = content, pos = 0, eofbit = False, failbit = False, badbit = False\<rparr>"

fun fstream_open :: "fsentry \<Rightarrow> fstream" where
  "fstream_open (Existing content) = open_stream content"
| "fstream_open Creatable = closed_stream"
| "fstream_open Inaccessible = closed_stream"

fun fstream_open_trunc :: "fsentry \<Rightarrow> fstream" where
  "fstream_open_trunc (Existing content) = open_stream []"
| "fstream_open_trunc Creatable = open_stream []"
| "fstream_open_trunc Inaccessible = closed_stream"

section \<open>The class \<open>BSwap16\<close>\<close>

text \<open>
  The members of the class (\<open>bswap16.cpp\<close>, lines 12 and 13): the stream \<open>_file\<close> and the
  block count \<open>_nblocks\<close>, an \<open>int\<close>. The template parameter \<open>BS\<close>, an \<open>unsigned\<close>, is
  the first argument of every function that uses it; \<open>blocksize()\<close> (line 72) returns it
  as a \<open>size_t\<close>.
\<close>

record BSwap16 =
  m_file :: fstream
  m_nblocks :: c_int

text \<open>
  The constructor (lines 20 to 62) either returns the object or ends the process:
  \<open>exit(1)\<close> after one of three diagnostics on the error stream (lines 31, 37 and 46).
  Dividing by a block size of 0 is undefined. The size \<open>actsize\<close> and the product
  \<open>totsize\<close> are \<open>streamoff\<close>s, compared as signed numbers (lines 45 and 53); the
  quotient \<open>actsize / blocksize()\<close> is computed in \<open>size_t\<close> and stored, like \<open>nblocks\<close>,
  in the \<open>int\<close> member (lines 49 and 60), which keeps the low 32 bits. The warning on the
  log stream (line 54) is left out.
\<close>

datatype diagnostic = CouldNotOpen | CouldNotCreate | EmptyNoSize

datatype abort = Exit int diagnostic | DivisionByZero

definition blocksize :: "c_unsigned \<Rightarrow> size_t" where
  "blocksize BS = ucast BS"

definition construct :: "c_unsigned \<Rightarrow> filesystem \<Rightarrow> string \<Rightarrow> size_t \<Rightarrow> abort + BSwap16" where
  "construct BS fs fname nblocks =
     (let f0 = fstream_open (fs fname) in
      case (if \<not> fs_fail f0
            then (let start = tellg f0; f1 = seekg_end f0 in Inr (f1, tellg f1 - start))
            else if nblocks = 0 then Inl (Exit 1 CouldNotOpen)
            else (let f1 = fstream_open_trunc (fs fname) in
                  if fs_fail f1 then Inl (Exit 1 CouldNotCreate) else Inr (f1, 0)))
      of Inl e \<Rightarrow> Inl e
       | Inr (f, actsize) \<Rightarrow>
          if nblocks = 0 then
            (if sint actsize \<le> 0 then Inl (Exit 1 EmptyNoSize)
             else if blocksize BS = 0 then Inl DivisionByZero
             else Inr \<lparr>m_file = f, m_nblocks = ucast (actsize div blocksize BS)\<rparr>)
          else
            (let totsize = nblocks * blocksize BS;
                 f2 = (if sint actsize < sint totsize
                       then fs_put 0 (seekp (totsize - 1) f) else f)
             in Inr \<lparr>m_file = f2, m_nblocks = ucast nblocks\<rparr>))"

text \<open>
  \<open>good()\<close> (line 69) and \<open>numblocks()\<close> (line 75), which converts the \<open>int\<close> member to
  \<open>size_t\<close>: a negative value is sign-extended.
\<close>

definition good :: "BSwap16 \<Rightarrow> bool" where
  "good b = fs_good (m_file b)"

definition numblocks :: "BSwap16 \<Rightarrow> size_t" where
  "numblocks b = scast (m_nblocks b)"

text \<open>
  The loop \<open>for (size_t i = 0; i < n; i += 2) { char b = d[i]; d[i] = d[i+1]; d[i+1] = b; }\<close>
  (lines 87, 103, 124 and 138) on the contents of the array \<open>d\<close> points to. The index
  \<open>i + 1\<close> leaves the array when \<open>n\<close> is odd or larger than the array.
\<close>

function bswap_loop :: "nat \<Rightarrow> nat \<Rightarrow> byte list \<Rightarrow> byte list option" where
  "bswap_loop i n d =
     (if i < n then
        (if i + 1 < length d
         then bswap_loop (i + 2) n (d[i := d ! (i + 1), i + 1 := d ! i])
         else None)
      else Some d)"
  by pat_completeness auto
termination
  by (relation "measure (\<lambda>(i, n, d). n - i)") auto

declare bswap_loop.simps [simp del]

definition bswap16 :: "nat \<Rightarrow> nat \<Rightarrow> memory \<Rightarrow> memory option" where
  "bswap16 d n m =
     do {
       a \<leftarrow> arrays m d;
       a' \<leftarrow> bswap_loop 0 n a;
       Some (m\<lparr>arrays := (arrays m)(d \<mapsto> a')\<rparr>)
     }"

text \<open>
  The data operations act on the object and the memory; \<open>data\<close> is the caller's pointer.
  \<open>None\<close> is undefined behaviour (an access outside an array). \<open>read\<close> (lines 80 to 93)
  and \<open>multiread\<close> (lines 117 to 130) seek, read into the caller's array and swap there;
  \<open>write\<close> (lines 98 to 114, here \<open>write_op\<close>) and \<open>multiwrite\<close> (lines 133 to 149)
  copy the caller's array to a new one, swap there, seek, write from it and delete it.
  Offsets and sizes are products in \<open>size_t\<close>, handed to the stream as \<open>streamoff\<close> and
  \<open>streamsize\<close>. \<open>flush\<close> (line 155) flushes the stream; \<open>trim\<close> (line 161) does
  nothing; \<open>flushes()\<close> and \<open>trims()\<close> (lines 152 and 158) are constants.
\<close>

type_synonym state = "BSwap16 \<times> memory"

definition read :: "c_unsigned \<Rightarrow> size_t \<Rightarrow> nat \<Rightarrow> state \<Rightarrow> state option" where
  "read BS index data = (\<lambda>(b, m).
     do {
       let d = data;
       let f1 = seekg (index * blocksize BS) (m_file b);
       (f2, m1) \<leftarrow> fs_read d (blocksize BS) f1 m;
       m2 \<leftarrow> bswap16 d (unat (blocksize BS)) m1;
       Some (b\<lparr>m_file := f2\<rparr>, m2)
     })"

definition write_op :: "c_unsigned \<Rightarrow> size_t \<Rightarrow> nat \<Rightarrow> state \<Rightarrow> state option" where
  "write_op BS index data = (\<lambda>(b, m).
     do {
       let (d, m1) = new_array (unat (blocksize BS)) m;
       m2 \<leftarrow> memcpy d data (unat (blocksize BS)) m1;
       m3 \<leftarrow> bswap16 d (unat (blocksize BS)) m2;
       let f1 = seekp (index * blocksize BS) (m_file b);
       f2 \<leftarrow> fs_write d (blocksize BS) f1 m3;
       Some (b\<lparr>m_file := f2\<rparr>, delete_array d m3)
     })"

definition multiread :: "c_unsigned \<Rightarrow> size_t \<Rightarrow> size_t \<Rightarrow> nat \<Rightarrow> state \<Rightarrow> state option" where
  "multiread BS index count data = (\<lambda>(b, m).
     do {
       let d = data;
       let f1 = seekg (index * blocksize BS) (m_file b);
       (f2, m1) \<leftarrow> fs_read d (count * blocksize BS) f1 m;
       m2 \<leftarrow> bswap16 d (unat (count * blocksize BS)) m1;
       Some (b\<lparr>m_file := f2\<rparr>, m2)
     })"

definition multiwrite :: "c_unsigned \<Rightarrow> size_t \<Rightarrow> size_t \<Rightarrow> nat \<Rightarrow> state \<Rightarrow> state option" where
  "multiwrite BS index count data = (\<lambda>(b, m).
     do {
       let (d, m1) = new_array (unat (count * blocksize BS)) m;
       m2 \<leftarrow> memcpy d data (unat (count * blocksize BS)) m1;
       m3 \<leftarrow> bswap16 d (unat (count * blocksize BS)) m2;
       let f1 = seekp (index * blocksize BS) (m_file b);
       f2 \<leftarrow> fs_write d (count * blocksize BS) f1 m3;
       Some (b\<lparr>m_file := f2\<rparr>, delete_array d m3)
     })"

definition flushes :: "BSwap16 \<Rightarrow> bool" where
  "flushes b = True"

definition flush :: "state \<Rightarrow> state option" where
  "flush = (\<lambda>(b, m). Some (b\<lparr>m_file := fs_flush (m_file b)\<rparr>, m))"

definition trims :: "BSwap16 \<Rightarrow> bool" where
  "trims b = False"

definition trim :: "size_t \<Rightarrow> size_t \<Rightarrow> state \<Rightarrow> state option" where
  "trim index count = (\<lambda>(b, m). Some (b, m))"

section \<open>The caller's side\<close>

text \<open>
  The dispatcher that owns the object calls its operations one after the other. A call
  returns nothing: \<open>exec\<close> gives the state after one call, \<open>run\<close> after a sequence.
\<close>

datatype op =
  Read size_t nat
| Write size_t nat
| MultiRead size_t size_t nat
| MultiWrite size_t size_t nat
| Flush
| Trim size_t size_t

fun exec :: "c_unsigned \<Rightarrow> op \<Rightarrow> state \<Rightarrow> state option" where
  "exec BS (Read index data) s = read BS index data s"
| "exec BS (Write index data) s = write_op BS index data s"
| "exec BS (MultiRead index count data) s = multiread BS index count data s"
| "exec BS (MultiWrite index count data) s = multiwrite BS index count data s"
| "exec BS Flush s = flush s"
| "exec BS (Trim index count) s = trim index count s"

fun run :: "c_unsigned \<Rightarrow> op list \<Rightarrow> state \<Rightarrow> state option" where
  "run BS [] s = Some s"
| "run BS (x # xs) s = (case exec BS x s of None \<Rightarrow> None | Some s' \<Rightarrow> run BS xs s')"

text \<open>
  The blocks \<open>[index, index + count)\<close> are in range when they lie below the block count
  the object reports. The file covers the device when it holds at least
  \<open>numblocks() * blocksize()\<close> bytes. The size of a file is an \<open>off_t\<close>: at most
  \<open>2^63 - 1\<close>.
\<close>

definition in_range :: "BSwap16 \<Rightarrow> size_t \<Rightarrow> size_t \<Rightarrow> bool" where
  "in_range b index count \<longleftrightarrow> unat index + unat count \<le> unat (numblocks b)"

definition size_covered :: "c_unsigned \<Rightarrow> BSwap16 \<Rightarrow> bool" where
  "size_covered BS b \<longleftrightarrow>
     unat (numblocks b) * unat (blocksize BS) \<le> length (bytes (m_file b))"

definition off_t_max :: nat where
  "off_t_max = 2 ^ 63 - 1"

text \<open>
  Of a file system entry: whether it opens for reading and writing, whether the path can
  be opened once creating or emptying the file is allowed, and the size of the file.
\<close>

fun openable :: "fsentry \<Rightarrow> bool" where
  "openable (Existing content) = True"
| "openable Creatable = False"
| "openable Inaccessible = False"

fun creatable :: "fsentry \<Rightarrow> bool" where
  "creatable (Existing content) = True"
| "creatable Creatable = True"
| "creatable Inaccessible = False"

fun file_size :: "fsentry \<Rightarrow> nat" where
  "file_size (Existing content) = length content"
| "file_size Creatable = 0"
| "file_size Inaccessible = 0"

text \<open>Concrete states for the examples: a device of two blocks of four bytes, and callers' buffers.\<close>

definition example_device :: BSwap16 where
  "example_device = \<lparr>m_file = open_stream [0, 0, 0, 0, 0, 0, 0, 0], m_nblocks = 2\<rparr>"

definition example_memory :: memory where
  "example_memory =
     \<lparr>arrays = [0 \<mapsto> [1, 2, 3, 4, 5, 6, 7, 8], 1 \<mapsto> [9, 9, 9, 9, 9, 9, 9, 9]], lim = 2\<rparr>"

definition scenario_memory :: memory where
  "scenario_memory = \<lparr>arrays = [0 \<mapsto> [1, 2, 3, 4], 1 \<mapsto> [0, 0, 0, 0]], lim = 2\<rparr>"

text \<open>Two buffers of one block of 512 bytes: a source of \<open>0xAB\<close> bytes and a destination of zeros.\<close>

definition block_memory :: memory where
  "block_memory = \<lparr>arrays = [0 \<mapsto> replicate 512 0xAB, 1 \<mapsto> replicate 512 0], lim = 2\<rparr>"

section \<open>The byte swap\<close>

lemma bswap_loop_length:
  "bswap_loop i n d = Some d' \<Longrightarrow> length d' = length d"
proof (induction i n d rule: bswap_loop.induct)
  case (1 i n d)
  then show ?case
    by (subst (asm) (2) bswap_loop.simps) (auto split: if_splits)
qed

lemma bswap_loop_total:
  "even i \<Longrightarrow> even n \<Longrightarrow> n \<le> length d \<Longrightarrow> \<exists>d'. bswap_loop i n d = Some d'"
proof (induction i n d rule: bswap_loop.induct)
  case (1 i n d)
  show ?case
  proof (cases "i < n")
    case False
    then show ?thesis by (subst bswap_loop.simps) simp
  next
    case True
    with "1.prems" have lt: "i + 1 < length d"
      by (metis Suc_eq_plus1 Suc_leI even_Suc le_neq_implies_less order.strict_trans2)
    from "1.IH" [OF True lt] "1.prems" obtain d' where
      "bswap_loop (i + 2) n (d[i := d ! (i + 1), i + 1 := d ! i]) = Some d'"
      by auto
    with True lt show ?thesis by (subst bswap_loop.simps) simp
  qed
qed

lemma bswap_loop_nth:
  "bswap_loop i n d = Some d' \<Longrightarrow> even i \<Longrightarrow> even n \<Longrightarrow> j < length d \<Longrightarrow>
   d' ! j = (if i \<le> j \<and> j < n then (if even j then d ! (j + 1) else d ! (j - 1)) else d ! j)"
proof (induction i n d arbitrary: j rule: bswap_loop.induct)
  case (1 i n d)
  show ?case
  proof (cases "i < n")
    case False
    with "1.prems"(1) have "d' = d" by (subst (asm) bswap_loop.simps) simp
    with False show ?thesis by auto
  next
    case True
    with "1.prems"(1) have lt: "i + 1 < length d"
      by (subst (asm) bswap_loop.simps) (simp split: if_splits)
    let ?d1 = "d[i := d ! (i + 1), i + 1 := d ! i]"
    from "1.prems"(1) True lt have rec: "bswap_loop (i + 2) n ?d1 = Some d'"
      by (subst (asm) bswap_loop.simps) simp
    have j1: "j < length ?d1" using "1.prems"(4) by simp
    have ih: "d' ! j = (if i + 2 \<le> j \<and> j < n
                then (if even j then ?d1 ! (j + 1) else ?d1 ! (j - 1)) else ?d1 ! j)"
      using "1.IH" [OF True lt rec _ "1.prems"(3) j1] "1.prems"(2) by simp
    show ?thesis
    proof (cases "i + 2 \<le> j")
      case True
      then have "j \<noteq> i" "j \<noteq> i + 1" "j + 1 \<noteq> i" "j + 1 \<noteq> i + 1" "j - 1 \<noteq> i" by auto
      moreover have "j - 1 \<noteq> i + 1" if "odd j"
      proof
        assume "j - 1 = i + 1"
        with True have "j = Suc (Suc i)" by simp
        with that "1.prems"(2) show False by simp
      qed
      ultimately show ?thesis using ih True by auto
    next
      case False
      then consider "j < i" | "j = i" | "j = i + 1" by linarith
      then show ?thesis
      proof cases
        case 1 with ih show ?thesis by simp
      next
        case 2 with ih lt \<open>i < n\<close> "1.prems"(2) show ?thesis by simp
      next
        case 3
        have "i + 1 < n" using \<open>i < n\<close> "1.prems"(2,3)
          by (metis Suc_eq_plus1 Suc_leI even_Suc le_neq_implies_less)
        with 3 ih lt "1.prems"(2) show ?thesis by simp
      qed
    qed
  qed
qed

lemma bswap_loop_pair:
  assumes "bswap_loop i n d = Some d'" "even i" "even n" "n \<le> length d"
    "even j" "i \<le> j" "j < n"
  shows "d' ! j = d ! Suc j \<and> d' ! Suc j = d ! j"
proof -
  have lt: "Suc j < n" using assms(3,5,7)
    by (metis Suc_leI even_Suc le_neq_implies_less)
  then have len: "Suc j < length d" using assms(4) by simp
  from bswap_loop_nth [OF assms(1-3), of j] len assms(5-7)
  have a: "d' ! j = d ! Suc j" by simp
  from bswap_loop_nth [OF assms(1-3) len] assms(5,6) lt
  have "d' ! Suc j = d ! j" by simp
  with a show ?thesis by simp
qed

lemma bswap_loop_outside:
  assumes "bswap_loop i n d = Some d'" "even i" "even n" "j < length d" "j < i \<or> n \<le> j"
  shows "d' ! j = d ! j"
  using bswap_loop_nth [OF assms(1-4)] assms(5) by auto

lemma bswap_loop_back:
  assumes n: "even n" "n \<le> length d" and fw: "bswap_loop 0 n d = Some d'"
  shows "bswap_loop 0 n (take n d' @ ys) = Some (take n d @ ys)"
proof -
  have len': "length d' = length d" using fw by (rule bswap_loop_length)
  let ?e = "take n d' @ ys"
  have le: "n \<le> length ?e" using n len' by simp
  from bswap_loop_total [OF _ n(1) le] obtain e' where e': "bswap_loop 0 n ?e = Some e'"
    by auto
  have lene: "length e' = length ?e" using e' by (rule bswap_loop_length)
  have "e' = take n d @ ys"
  proof (rule nth_equalityI)
    show "length e' = length (take n d @ ys)" using lene n len' by simp
  next
    fix j assume "j < length e'"
    then have j: "j < length ?e" using lene by simp
    show "e' ! j = (take n d @ ys) ! j"
    proof (cases "j < n")
      case False
      with bswap_loop_outside [OF e' _ n(1) j] n len' show ?thesis
        by (simp add: nth_append)
    next
      case True
      show ?thesis
      proof (cases "even j")
        case True
        have j1: "Suc j < n" using \<open>j < n\<close> n(1) True
          by (metis Suc_leI even_Suc le_neq_implies_less)
        from bswap_loop_pair [OF e' _ n(1) le True _ \<open>j < n\<close>]
        have "e' ! j = ?e ! Suc j" by simp
        also have "\<dots> = d' ! Suc j" using j1 n len' by (simp add: nth_append)
        also have "\<dots> = d ! j"
          using bswap_loop_pair [OF fw _ n True _ \<open>j < n\<close>] by simp
        finally show ?thesis using \<open>j < n\<close> n by (simp add: nth_append)
      next
        case False
        then obtain k where k: "j = Suc k" "even k" by (cases j) auto
        with \<open>j < n\<close> have kn: "k < n" by simp
        from bswap_loop_pair [OF e' _ n(1) le k(2) _ kn] k
        have "e' ! j = ?e ! k" by simp
        also have "\<dots> = d' ! k" using kn n len' by (simp add: nth_append)
        also have "\<dots> = d ! j"
          using bswap_loop_pair [OF fw _ n k(2) _ kn] k by simp
        finally show ?thesis using \<open>j < n\<close> n by (simp add: nth_append)
      qed
    qed
  qed
  with e' show ?thesis by simp
qed

lemma bswap_loop_drop:
  assumes "even n" "bswap_loop 0 n d = Some d'"
  shows "drop n d' = drop n d"
proof (rule nth_equalityI)
  show "length (drop n d') = length (drop n d)"
    using bswap_loop_length [OF assms(2)] by simp
next
  fix j assume "j < length (drop n d')"
  then have "n + j < length d" using bswap_loop_length [OF assms(2)] by simp
  from bswap_loop_outside [OF assms(2) _ assms(1) this] this bswap_loop_length [OF assms(2)]
  show "drop n d' ! j = drop n d ! j" by simp
qed

text \<open>
  C7. Swap involution: on a buffer that holds at least \<open>n\<close> bytes, \<open>n\<close> even, the swap
  loop over the first \<open>n\<close> bytes returns, and run a second time over its own result it
  gives the buffer back. With \<open>n = length B\<close> this is \<open>swap (swap B) = B\<close> for every
  buffer of even length; the transfer size \<open>n\<close> is any multiple of 2.
\<close>

theorem swap_involution:
  assumes "even n" "n \<le> length B"
  shows "\<exists>B'. bswap_loop 0 n B = Some B' \<and> bswap_loop 0 n B' = Some B"
proof -
  from bswap_loop_total [OF _ assms] obtain B' where fw: "bswap_loop 0 n B = Some B'"
    by auto
  have "take n B' @ drop n B = B'"
    using bswap_loop_drop [OF assms(1) fw] by (metis append_take_drop_id)
  with bswap_loop_back [OF assms fw, of "drop n B"]
  have "bswap_loop 0 n B' = Some B" by simp
  with fw show ?thesis by blast
qed

theorem swap_involution_witness:
  "even (4::nat) \<and> 4 \<le> length [0x12, 0x34, 0x56, 0x78, 0x9A :: byte] \<and>
   bswap_loop 0 4 [0x12, 0x34, 0x56, 0x78, 0x9A :: byte] = Some [0x34, 0x12, 0x78, 0x56, 0x9A] \<and>
   bswap_loop 0 4 [0x34, 0x12, 0x78, 0x56, 0x9A :: byte] = Some [0x12, 0x34, 0x56, 0x78, 0x9A]"
proof -
  have fw: "bswap_loop 0 4 [0x12, 0x34, 0x56, 0x78, 0x9A :: byte] = Some [0x34, 0x12, 0x78, 0x56, 0x9A]"
    by (simp add: bswap_loop.simps)
  from swap_involution [of 4 "[0x12, 0x34, 0x56, 0x78, 0x9A :: byte]"] fw
  show ?thesis by simp
qed

section \<open>Word arithmetic of offsets and sizes\<close>

lemma unat_blocksize: "unat (blocksize BS) = unat BS"
  unfolding blocksize_def
  by (simp add: unsigned_ucast_eq take_bit_nat_eq_self order_less_trans [OF unsigned_less])

lemma unat_mult64:
  "unat a * unat b < 2 ^ 64 \<Longrightarrow> unat (a * b :: 64 word) = unat a * unat b"
  by (simp add: unat_mult_lem [THEN iffD1])

lemma sint_small64:
  assumes "unat (w :: 64 word) < 2 ^ 63" shows "sint w = int (unat w)"
proof -
  have "int (unat w) < int (2 ^ 63)" using assms by (simp only: of_nat_less_iff)
  then have lt: "uint w < 2 ^ 63" by (simp only: uint_nat) simp
  have ge: "- (2 ^ 63) \<le> uint w"
    by (rule order_trans [of _ 0]) simp_all
  have "sint w = signed_take_bit 63 (uint w)" by (simp add: sint_uint)
  also have "\<dots> = uint w"
    using ge lt by (rule signed_take_bit_int_eq_self)
  finally show ?thesis by (simp only: uint_nat)
qed

lemma sint_large64:
  assumes "2 ^ 63 \<le> unat (w :: 64 word)" shows "sint w < 0"
proof -
  have "int (2 ^ 63) \<le> int (unat w)" using assms by (simp only: of_nat_le_iff)
  then have ge: "2 ^ 63 \<le> uint w" by (simp only: uint_nat) simp
  have "uint w < 2 ^ 64" using uint_bounded [of w] by simp
  with ge have "uint w div 2 ^ 63 = 1" by simp
  then have "bit (uint w) 63"
    by (simp only: bit_iff_odd) simp
  then show ?thesis by (simp add: sint_uint signed_take_bit_negative_iff)
qed

lemma sint_nonneg64: "0 \<le> sint (w :: 64 word) \<Longrightarrow> sint w = int (unat w)"
  by (metis sint_large64 sint_small64 not_le not_less)

lemma offsets_fit:
  assumes "unat index * unat BS + unat count * unat BS \<le> off_t_max"
  shows "unat (index * blocksize BS) = unat index * unat BS"
    and "unat (count * blocksize BS) = unat count * unat BS"
    and "0 \<le> sint (index * blocksize BS)"
    and "0 \<le> sint (count * blocksize BS)"
proof -
  from assms have lt: "unat index * unat BS < 2 ^ 63" "unat count * unat BS < 2 ^ 63"
    by (simp_all add: off_t_max_def)
  then have "unat index * unat (blocksize BS) < 2 ^ 64" "unat count * unat (blocksize BS) < 2 ^ 64"
    by (simp_all add: unat_blocksize)
  then show i: "unat (index * blocksize BS) = unat index * unat BS"
    and c: "unat (count * blocksize BS) = unat count * unat BS"
    by (simp_all add: unat_mult64 unat_blocksize)
  show "0 \<le> sint (index * blocksize BS)" "0 \<le> sint (count * blocksize BS)"
    using lt i c by (simp_all add: sint_small64)
qed

text \<open>An in-range run of blocks of a device whose file covers it lies inside the file.\<close>

lemma range_in_file:
  assumes cov: "size_covered BS b" and rg: "in_range b index count"
  shows "unat index * unat BS + unat count * unat BS \<le> length (bytes (m_file b))"
proof -
  have "(unat index + unat count) * unat BS \<le> unat (numblocks b) * unat BS"
    using rg by (simp add: in_range_def mult_le_mono1)
  also have "\<dots> \<le> length (bytes (m_file b))"
    using cov by (simp add: size_covered_def unat_blocksize)
  finally show ?thesis by (simp add: add_mult_distrib)
qed

lemma numblocks_nonneg:
  assumes "0 \<le> sint (m_nblocks b)" shows "unat (numblocks b) < 2 ^ 31"
proof -
  let ?k = "sint (m_nblocks b)"
  have lt: "?k < 2 ^ 31" using sint_lt [of "m_nblocks b"] by simp
  have "numblocks b = word_of_int ?k" by (simp only: numblocks_def scast_eq)
  then have "uint (numblocks b) = take_bit 64 ?k"
    by (simp only: uint_word_of_int_eq) simp
  also have "\<dots> = ?k"
    using assms lt by (simp add: take_bit_int_eq_self)
  finally have u: "uint (numblocks b) = ?k" .
  have "int (unat (numblocks b)) = ?k" using u by (simp only: uint_nat)
  with lt have "int (unat (numblocks b)) < int (2 ^ 31)" by simp
  then show ?thesis by (simp only: of_nat_less_iff)
qed

lemma unat_BS_bound: "unat (BS :: c_unsigned) < 2 ^ 32"
  using unsigned_less [of BS] by simp

text \<open>
  With a block count that is not negative as an \<open>int\<close>, every in-range run of blocks
  ends at an offset that fits an \<open>off_t\<close>.
\<close>

lemma in_range_fits_off_t:
  assumes "0 \<le> sint (m_nblocks b)" and "in_range b index count"
  shows "unat index * unat (BS :: c_unsigned) + unat count * unat BS \<le> off_t_max"
proof -
  have nb: "unat (numblocks b) \<le> 2 ^ 31 - 1" using numblocks_nonneg [OF assms(1)] by simp
  have bs: "unat BS \<le> 2 ^ 32 - 1" using unat_BS_bound [of BS] by simp
  have "(unat index + unat count) * unat BS \<le> unat (numblocks b) * unat BS"
    using assms(2) by (simp add: in_range_def mult_le_mono1)
  also have "\<dots> \<le> (2 ^ 31 - 1) * (2 ^ 32 - 1)" using nb bs by (rule mult_le_mono)
  also have "\<dots> \<le> off_t_max" by (simp add: off_t_max_def)
  finally show ?thesis by (simp add: add_mult_distrib)
qed

section \<open>Stream and memory steps\<close>

lemmas op_defs = read_def write_op_def multiread_def multiwrite_def flush_def trim_def
  fs_read_def fs_write_def seekg_def seekp_def fs_flush_def bswap16_def memcpy_def
  new_array_def delete_array_def

lemma length_pwrite:
  "length (pwrite off xs c) = (if xs = [] then length c else max (length c) (off + length xs))"
  by (auto simp: pwrite_def)

lemma pwrite_read_back:
  "take (length xs) (drop off (pwrite off xs c)) = xs"
  by (auto simp: pwrite_def)

lemma pwrite_prefix_length: "length (take off c @ replicate (off - length c) x) = off"
  by simp

lemma pwrite_nth_inside:
  assumes "j < length xs" shows "pwrite off xs c ! (off + j) = xs ! j"
proof -
  let ?p = "take off c @ replicate (off - length c) 0"
  have "pwrite off xs c = ?p @ (xs @ drop (off + length xs) c)"
    using assms by (auto simp: pwrite_def)
  then have "pwrite off xs c ! (off + j) = (xs @ drop (off + length xs) c) ! j"
    using nth_append_length_plus [of ?p _ j] by (simp only: pwrite_prefix_length)
  with assms show ?thesis by (simp add: nth_append)
qed

lemma pwrite_nth_outside:
  assumes "j < off \<or> off + length xs \<le> j" "j < length c"
  shows "pwrite off xs c ! j = c ! j"
proof (cases "xs = []")
  case True
  then show ?thesis by (simp add: pwrite_def)
next
  case False
  from assms(1) show ?thesis
  proof
    assume "j < off"
    with assms(2) False show ?thesis by (simp add: pwrite_def nth_append)
  next
    assume le: "off + length xs \<le> j"
    let ?p = "take off c @ replicate (off - length c) 0"
    have eq: "pwrite off xs c = (?p @ xs) @ drop (off + length xs) c"
      using False by (simp add: pwrite_def)
    have len: "length (?p @ xs) = off + length xs" by simp
    from le obtain k where k: "j = (off + length xs) + k" using le_Suc_ex by blast
    have "pwrite off xs c ! j = drop (off + length xs) c ! k"
      unfolding eq k using nth_append_length_plus [of "?p @ xs" _ k] by (simp only: len)
    also have "\<dots> = c ! j" using assms(2) k by simp
    finally show ?thesis .
  qed
qed

lemma eofbit_clear_idem: "\<not> eofbit f \<Longrightarrow> f\<lparr>eofbit := False\<rparr> = f"
  by (cases f) simp

lemma good_bits:
  "good b \<Longrightarrow> \<not> eofbit (m_file b) \<and> \<not> failbit (m_file b) \<and> \<not> badbit (m_file b)"
  by (simp add: good_def fs_good_def)

lemma multiwrite_effect:
  assumes good: "good b" and wf: "wf_memory m"
    and src: "arrays m src = Some C" "unat (count * blocksize BS) \<le> length C"
    and ev: "even (unat (count * blocksize BS))"
    and off: "0 \<le> sint (index * blocksize BS)" and sz: "0 \<le> sint (count * blocksize BS)"
  shows "\<exists>S. bswap_loop 0 (unat (count * blocksize BS)) (take (unat (count * blocksize BS)) C) = Some S \<and>
     multiwrite BS index count src (b, m) =
       Some (b\<lparr>m_file := (m_file b)\<lparr>bytes := pwrite (unat (index * blocksize BS)) S (bytes (m_file b)),
                                       pos := unat (index * blocksize BS) + unat (count * blocksize BS)\<rparr>\<rparr>,
             m\<lparr>lim := Suc (lim m)\<rparr>)"
proof -
  let ?n = "unat (count * blocksize BS)"
  have "?n \<le> length (take ?n C)" using src(2) by simp
  from bswap_loop_total [OF _ ev this] obtain S where S: "bswap_loop 0 ?n (take ?n C) = Some S"
    by auto
  have lenS: "length S = ?n" using bswap_loop_length [OF S] src(2) by simp
  have fresh: "arrays m (lim m) = None" using wf by (simp add: wf_memory_def)
  then have ne: "src \<noteq> lim m" using src(1) by auto
  have upd: "(arrays m)(lim m := None) = arrays m" using fresh by (simp add: fun_upd_idem)
  have nneg: "\<not> sint (count * blocksize BS) < 0" "\<not> sint (index * blocksize BS) < 0"
    using sz off by simp_all
  have "multiwrite BS index count src (b, m) =
       Some (b\<lparr>m_file := (m_file b)\<lparr>bytes := pwrite (unat (index * blocksize BS)) S (bytes (m_file b)),
                                       pos := unat (index * blocksize BS) + ?n\<rparr>\<rparr>,
             m\<lparr>lim := Suc (lim m)\<rparr>)"
    using src ne S lenS good_bits [OF good] nneg upd
    by (simp add: multiwrite_def new_array_def memcpy_def bswap16_def fs_write_def seekp_def
        delete_array_def fs_good_def fs_fail_def)
  with S show ?thesis by blast
qed

lemma multiread_effect:
  assumes good: "good b"
    and dst: "arrays m dst = Some B" "unat (count * blocksize BS) \<le> length B"
    and ev: "even (unat (count * blocksize BS))"
    and off: "0 \<le> sint (index * blocksize BS)" and sz: "0 \<le> sint (count * blocksize BS)"
    and avail: "unat (count * blocksize BS) \<le> length (bytes (m_file b)) - unat (index * blocksize BS)"
  shows "\<exists>R. bswap_loop 0 (unat (count * blocksize BS))
            (take (unat (count * blocksize BS)) (drop (unat (index * blocksize BS)) (bytes (m_file b)))
             @ drop (unat (count * blocksize BS)) B) = Some R \<and>
     multiread BS index count dst (b, m) =
       Some (b\<lparr>m_file := (m_file b)\<lparr>pos := unat (index * blocksize BS) + unat (count * blocksize BS)\<rparr>\<rparr>,
             m\<lparr>arrays := (arrays m)(dst \<mapsto> R)\<rparr>)"
proof -
  let ?n = "unat (count * blocksize BS)" and ?off = "unat (index * blocksize BS)"
  let ?got = "take ?n (drop ?off (bytes (m_file b)))"
  have lg: "length ?got = ?n" using avail by simp
  then have "?n \<le> length (?got @ drop ?n B)" by simp
  from bswap_loop_total [OF _ ev this] obtain R where R: "bswap_loop 0 ?n (?got @ drop ?n B) = Some R"
    by auto
  have sz': "sint (count * blocksize BS) = int ?n"
    using sz by (rule sint_nonneg64)
  have nneg: "\<not> sint (index * blocksize BS) < 0"
    using off by simp
  have "multiread BS index count dst (b, m) =
       Some (b\<lparr>m_file := (m_file b)\<lparr>pos := ?off + ?n\<rparr>\<rparr>, m\<lparr>arrays := (arrays m)(dst \<mapsto> R)\<rparr>)"
    using dst R good_bits [OF good] nneg avail
    by (simp add: sz' multiread_def bswap16_def fs_read_def seekg_def
        fs_good_def fs_fail_def min_def Let_def eofbit_clear_idem)
  with R show ?thesis by blast
qed

lemma read_is_multiread: "read BS index data s = multiread BS index 1 data s"
  by (simp add: read_def multiread_def)

lemma write_is_multiwrite: "write_op BS index data s = multiwrite BS index 1 data s"
  by (simp add: write_op_def multiwrite_def)

text \<open>Writing a range and reading it back, from the offsets alone.\<close>

lemma multi_roundtrip:
  assumes good: "good b" and wf: "wf_memory m"
    and src: "arrays m src = Some C" "unat (count * blocksize BS) \<le> length C"
    and dst: "arrays m dst = Some B" "unat (count * blocksize BS) \<le> length B"
    and ev: "even (unat (count * blocksize BS))"
    and off: "0 \<le> sint (index * blocksize BS)" and sz: "0 \<le> sint (count * blocksize BS)"
  shows "\<exists>b1 m1 b2 m2.
      multiwrite BS index count src (b, m) = Some (b1, m1) \<and>
      multiread BS index count dst (b1, m1) = Some (b2, m2) \<and>
      good b2 \<and>
      arrays m2 dst = Some (take (unat (count * blocksize BS)) C @ drop (unat (count * blocksize BS)) B)"
proof -
  let ?n = "unat (count * blocksize BS)" and ?off = "unat (index * blocksize BS)"
  from multiwrite_effect [OF good wf src ev off sz] obtain S where
    S: "bswap_loop 0 ?n (take ?n C) = Some S" and
    w: "multiwrite BS index count src (b, m) =
       Some (b\<lparr>m_file := (m_file b)\<lparr>bytes := pwrite ?off S (bytes (m_file b)), pos := ?off + ?n\<rparr>\<rparr>,
             m\<lparr>lim := Suc (lim m)\<rparr>)" (is "_ = Some (?b1, ?m1)")
    by blast
  have lenS: "length S = ?n" using bswap_loop_length [OF S] src(2) by simp
  have good1: "good ?b1" using good by (simp add: good_def fs_good_def)
  have dst1: "arrays ?m1 dst = Some B" using dst(1) by simp
  have avail: "?n \<le> length (bytes (m_file ?b1)) - ?off"
    using lenS [symmetric] by (auto simp: length_pwrite)
  from multiread_effect [OF good1 dst1 dst(2) ev off sz avail] obtain R where
    R: "bswap_loop 0 ?n (take ?n (drop ?off (bytes (m_file ?b1))) @ drop ?n B) = Some R" and
    r: "multiread BS index count dst (?b1, ?m1) =
       Some (?b1\<lparr>m_file := (m_file ?b1)\<lparr>pos := ?off + ?n\<rparr>\<rparr>, ?m1\<lparr>arrays := (arrays ?m1)(dst \<mapsto> R)\<rparr>)"
      (is "_ = Some (?b2, ?m2)")
    by blast
  have "take ?n (drop ?off (bytes (m_file ?b1))) = S"
    using pwrite_read_back [of S ?off "bytes (m_file b)"] lenS by simp
  with R have "bswap_loop 0 ?n (take ?n S @ drop ?n B) = Some R" using lenS by simp
  moreover have "bswap_loop 0 ?n (take ?n S @ drop ?n B) = Some (take ?n (take ?n C) @ drop ?n B)"
    using bswap_loop_back [OF ev _ S] src(2) by simp
  ultimately have Req: "R = take ?n C @ drop ?n B" by simp
  have good2: "good ?b2" using good by (simp add: good_def fs_good_def)
  have "arrays ?m2 dst = Some (take ?n C @ drop ?n B)" using Req by simp
  with w r good2 show ?thesis by blast
qed

text \<open>
  Writing and reading back in range. On a good device whose block count is not negative
  as an \<open>int\<close>, for buffers of the caller that hold at least the transferred length:
  \<open>write(index, src)\<close> and then \<open>read(index, dst)\<close> on an in-range block return, the device
  stays good, and the first \<open>blocksize()\<close> bytes of \<open>dst\<close> are those of \<open>src\<close>, the rest of
  \<open>dst\<close> untouched; the same for \<open>multiwrite\<close> and \<open>multiread\<close> over an in-range
  \<open>[index, index + count)\<close>. For buffers of exactly the transferred length the buffer read
  is the buffer written. Nothing is asked of the size of the file: the write extends it.
\<close>

lemma roundtrip_in_range:
  assumes "even (unat BS)" and "good b" and "0 \<le> sint (m_nblocks b)" and "wf_memory m"
    and "arrays m src = Some C" and "arrays m dst = Some B"
  shows
   "(in_range b index 1 \<and> unat BS \<le> length C \<and> unat BS \<le> length B \<longrightarrow>
      (\<exists>b1 m1 b2 m2. write_op BS index src (b, m) = Some (b1, m1) \<and>
          read BS index dst (b1, m1) = Some (b2, m2) \<and> good b2 \<and>
          arrays m2 dst = Some (take (unat BS) C @ drop (unat BS) B) \<and>
          (length C = unat BS \<and> length B = unat BS \<longrightarrow> arrays m2 dst = Some C)))
    \<and> (in_range b index count \<and> unat count * unat BS \<le> length C
          \<and> unat count * unat BS \<le> length B \<longrightarrow>
      (\<exists>b1 m1 b2 m2. multiwrite BS index count src (b, m) = Some (b1, m1) \<and>
          multiread BS index count dst (b1, m1) = Some (b2, m2) \<and> good b2 \<and>
          arrays m2 dst = Some (take (unat count * unat BS) C @ drop (unat count * unat BS) B) \<and>
          (length C = unat count * unat BS \<and> length B = unat count * unat BS \<longrightarrow>
             arrays m2 dst = Some C)))"
proof -
  have multi: "\<exists>b1 m1 b2 m2. multiwrite BS index k src (b, m) = Some (b1, m1) \<and>
          multiread BS index k dst (b1, m1) = Some (b2, m2) \<and> good b2 \<and>
          arrays m2 dst = Some (take (unat k * unat BS) C @ drop (unat k * unat BS) B) \<and>
          (length C = unat k * unat BS \<and> length B = unat k * unat BS \<longrightarrow>
             arrays m2 dst = Some C)"
    if rg: "in_range b index k" and lc: "unat k * unat BS \<le> length C"
      and lb: "unat k * unat BS \<le> length B" for k
  proof -
    note fits = offsets_fit [OF in_range_fits_off_t [OF assms(3) rg]]
    have n: "unat (k * blocksize BS) = unat k * unat BS" by (rule fits(2))
    have ev: "even (unat (k * blocksize BS))" using assms(1) by (simp add: n)
    from multi_roundtrip [OF assms(2,4,5) _ assms(6) _ ev fits(3,4)] lc lb
    obtain b1 m1 b2 m2 where r: "multiwrite BS index k src (b, m) = Some (b1, m1)"
      "multiread BS index k dst (b1, m1) = Some (b2, m2)" "good b2"
      "arrays m2 dst = Some (take (unat k * unat BS) C @ drop (unat k * unat BS) B)"
      by (auto simp: n)
    from r(4) have "arrays m2 dst = Some C"
      if "length C = unat k * unat BS \<and> length B = unat k * unat BS"
      using that by simp
    with r show ?thesis by blast
  qed
  show ?thesis
  proof (intro conjI impI)
    assume a: "in_range b index 1 \<and> unat BS \<le> length C \<and> unat BS \<le> length B"
    with multi [of 1] show "\<exists>b1 m1 b2 m2. write_op BS index src (b, m) = Some (b1, m1) \<and>
          read BS index dst (b1, m1) = Some (b2, m2) \<and> good b2 \<and>
          arrays m2 dst = Some (take (unat BS) C @ drop (unat BS) B) \<and>
          (length C = unat BS \<and> length B = unat BS \<longrightarrow> arrays m2 dst = Some C)"
      by (simp add: read_is_multiread write_is_multiwrite)
  next
    assume "in_range b index count \<and> unat count * unat BS \<le> length C
          \<and> unat count * unat BS \<le> length B"
    with multi [of count] show "\<exists>b1 m1 b2 m2. multiwrite BS index count src (b, m) = Some (b1, m1) \<and>
          multiread BS index count dst (b1, m1) = Some (b2, m2) \<and> good b2 \<and>
          arrays m2 dst = Some (take (unat count * unat BS) C @ drop (unat count * unat BS) B) \<and>
          (length C = unat count * unat BS \<and> length B = unat count * unat BS \<longrightarrow>
             arrays m2 dst = Some C)"
      by simp
  qed
qed


text \<open>
  C2. On-disk representation. On a good device, \<open>write(index, src)\<close> of a block whose
  byte range fits an \<open>off_t\<close> returns with the device good, and for every \<open>j < blocksize()\<close>
  the file holds at offset \<open>index * blocksize() + j\<close> the byte of the caller's buffer at
  \<open>j + 1\<close> when \<open>j\<close> is even and at \<open>j - 1\<close> when \<open>j\<close> is odd; every byte the file had
  outside \<open>[index * blocksize(), (index + 1) * blocksize())\<close> is unchanged. The instance
  that follows is the scenario of the specification: block size 4, two blocks, \<open>[0x01,0x02,0x03,0x04]\<close>
  written to block 0 is stored as \<open>[0x02,0x01,0x04,0x03]\<close> and read back as
  \<open>[0x01,0x02,0x03,0x04]\<close>.
\<close>

theorem on_disk_representation:
  assumes "even (unat BS)" and "good b" and "wf_memory m"
    and "arrays m src = Some C" and "unat BS \<le> length C"
    and "unat index * unat BS + unat BS \<le> off_t_max"
  shows "\<exists>b' m'. write_op BS index src (b, m) = Some (b', m') \<and> good b' \<and>
      (\<forall>j < unat BS. unat index * unat BS + j < length (bytes (m_file b')) \<and>
          bytes (m_file b') ! (unat index * unat BS + j) =
            (if even j then C ! (j + 1) else C ! (j - 1))) \<and>
      (\<forall>k < length (bytes (m_file b)).
          k < unat index * unat BS \<or> unat index * unat BS + unat BS \<le> k \<longrightarrow>
          bytes (m_file b') ! k = bytes (m_file b) ! k)"
proof -
  let ?n = "unat BS" and ?off = "unat index * unat BS"
  have "unat index * unat BS + unat (1 :: size_t) * unat BS \<le> off_t_max"
    using assms(6) by simp
  note fits = offsets_fit [OF this]
  have n: "unat (1 * blocksize BS) = ?n" using fits(2) by simp
  have off: "unat (index * blocksize BS) = ?off" by (rule fits(1))
  have ev: "even (unat (1 * blocksize BS))" using assms(1) n by simp
  have le: "unat (1 * blocksize BS) \<le> length C" using assms(5) n by simp
  from multiwrite_effect [OF assms(2,3,4) le ev fits(3,4)] obtain S where
    S: "bswap_loop 0 ?n (take ?n C) = Some S" and
    w: "write_op BS index src (b, m) =
       Some (b\<lparr>m_file := (m_file b)\<lparr>bytes := pwrite ?off S (bytes (m_file b)), pos := ?off + ?n\<rparr>\<rparr>,
             m\<lparr>lim := Suc (lim m)\<rparr>)" (is "_ = Some (?b', ?m')")
    unfolding n off write_is_multiwrite by blast
  have lenS: "length S = ?n" using bswap_loop_length [OF S] assms(5) by simp
  have good': "good ?b'" using assms(2) by (simp add: good_def fs_good_def)
  have inside: "?off + j < length (bytes (m_file ?b'))" if j: "j < ?n" for j
    using j lenS by (auto simp: length_pwrite)
  have nth: "bytes (m_file ?b') ! (?off + j) = (if even j then C ! (j + 1) else C ! (j - 1))"
    if j: "j < ?n" for j
  proof -
    have "bytes (m_file ?b') ! (?off + j) = S ! j"
      using pwrite_nth_inside [of j S ?off] j lenS by simp
    also have "\<dots> = (if even j then take ?n C ! (j + 1) else take ?n C ! (j - 1))"
      using bswap_loop_nth [OF S _ assms(1), of j] j assms(5) by simp
    also have "\<dots> = (if even j then C ! (j + 1) else C ! (j - 1))"
    proof (cases "even j")
      case True
      with j assms(1) have "Suc j < ?n"
        by (metis Suc_leI even_Suc le_neq_implies_less)
      with True show ?thesis by simp
    next
      case False
      with j show ?thesis by simp
    qed
    finally show ?thesis .
  qed
  have outside: "bytes (m_file ?b') ! k = bytes (m_file b) ! k"
    if "k < length (bytes (m_file b))" "k < ?off \<or> ?off + ?n \<le> k" for k
    using pwrite_nth_outside [of k ?off S "bytes (m_file b)"] that lenS by simp
  from w good' inside nth outside show ?thesis by blast
qed

theorem on_disk_representation_witness:
  "even (unat (4 :: c_unsigned)) \<and> good example_device \<and> wf_memory scenario_memory \<and>
   arrays scenario_memory 0 = Some [0x01, 0x02, 0x03, 0x04] \<and>
   unat (4 :: c_unsigned) \<le> length [0x01, 0x02, 0x03, 0x04 :: byte] \<and>
   unat (0 :: size_t) * unat (4 :: c_unsigned) + unat (4 :: c_unsigned) \<le> off_t_max \<and>
   (\<exists>b' m'. write_op 4 0 0 (example_device, scenario_memory) = Some (b', m') \<and> good b' \<and>
      bytes (m_file b') = [0x02, 0x01, 0x04, 0x03, 0, 0, 0, 0] \<and>
      (\<exists>b'' m''. read 4 0 1 (b', m') = Some (b'', m'') \<and>
         arrays m'' 1 = Some [0x01, 0x02, 0x03, 0x04]))"
proof -
  have h: "even (unat (4 :: c_unsigned))" "good example_device" "wf_memory scenario_memory"
    "arrays scenario_memory 0 = Some [0x01, 0x02, 0x03, 0x04]"
    "unat (4 :: c_unsigned) \<le> length [0x01, 0x02, 0x03, 0x04 :: byte]"
    "unat (0 :: size_t) * unat (4 :: c_unsigned) + unat (4 :: c_unsigned) \<le> off_t_max"
    by (simp_all add: example_device_def scenario_memory_def good_def fs_good_def open_stream_def
      off_t_max_def wf_memory_def)
  from on_disk_representation [OF h] obtain b' m' where
    w: "write_op 4 0 0 (example_device, scenario_memory) = Some (b', m')" and g: "good b'"
    by blast
  have ev: "write_op 4 0 0 (example_device, scenario_memory) =
      Some (example_device\<lparr>m_file := (m_file example_device)\<lparr>bytes := [0x02, 0x01, 0x04, 0x03, 0, 0, 0, 0], pos := 4\<rparr>\<rparr>,
            scenario_memory\<lparr>arrays := (arrays scenario_memory)(2 := None), lim := 3\<rparr>)"
    by (simp add: write_op_def new_array_def memcpy_def bswap16_def fs_write_def seekp_def
        delete_array_def fs_good_def fs_fail_def example_device_def scenario_memory_def
        open_stream_def blocksize_def bswap_loop.simps pwrite_def)
  have rd: "\<exists>b'' m''. read 4 0 1 (example_device\<lparr>m_file := (m_file example_device)\<lparr>bytes := [0x02, 0x01, 0x04, 0x03, 0, 0, 0, 0], pos := 4\<rparr>\<rparr>,
            scenario_memory\<lparr>arrays := (arrays scenario_memory)(2 := None), lim := 3\<rparr>) = Some (b'', m'') \<and>
         arrays m'' 1 = Some [0x01, 0x02, 0x03, 0x04]"
    by (simp add: read_def bswap16_def fs_read_def seekg_def Let_def
        fs_good_def fs_fail_def example_device_def scenario_memory_def
        open_stream_def blocksize_def bswap_loop.simps)
  from w ev g rd h show ?thesis by auto
qed

text \<open>
  C8. Single-block operations are the multi-block ones at \<open>count = 1\<close>: on every state,
  index and buffer, \<open>read\<close> gives the result of \<open>multiread\<close> with count 1 (the same
  object, file and memory, or both undefined), and \<open>write\<close> that of \<open>multiwrite\<close>.
\<close>

theorem single_block_is_count_1:
  "read BS index data s = multiread BS index 1 data s \<and>
   write_op BS index data s = multiwrite BS index 1 data s"
  by (simp add: read_def multiread_def write_op_def multiwrite_def)

text \<open>
  C10. Caller-buffer frame property. In a well-formed memory, whenever \<open>write\<close> or
  \<open>multiwrite\<close> returns, every array of the memory holds the bytes it held before the
  call, the caller's buffer among them: the swap ran on the scratch array, which is
  deleted again.
\<close>

theorem write_keeps_caller_buffer:
  assumes "wf_memory m"
  shows "(write_op BS index data (b, m) = Some (b', m') \<longrightarrow> arrays m' = arrays m) \<and>
         (multiwrite BS index count data (b, m) = Some (b'', m'') \<longrightarrow> arrays m'' = arrays m)"
proof -
  have fresh: "arrays m (lim m) = None" using assms by (simp add: wf_memory_def)
  have multi: "arrays m2 = arrays m" if "multiwrite BS index k data (b, m) = Some (b2, m2)" for k b2 m2
    using that fresh
    by (auto simp: multiwrite_def new_array_def memcpy_def bswap16_def delete_array_def
        split: Option.bind_splits if_splits)
  show ?thesis using multi [of 1 b' m'] multi [of count b'' m'']
    by (simp add: write_is_multiwrite)
qed

theorem write_keeps_caller_buffer_witness:
  "wf_memory example_memory \<and>
   (\<exists>b' m'. write_op 4 1 0 (example_device, example_memory) = Some (b', m') \<and>
      arrays m' = arrays example_memory \<and> arrays m' 0 = Some [1, 2, 3, 4, 5, 6, 7, 8]) \<and>
   (\<exists>b'' m''. multiwrite 4 0 2 0 (example_device, example_memory) = Some (b'', m'') \<and>
      arrays m'' = arrays example_memory \<and> arrays m'' 0 = Some [1, 2, 3, 4, 5, 6, 7, 8])"
proof -
  have wf: "wf_memory example_memory"
    by (simp add: example_memory_def wf_memory_def)
  have h: "good example_device" "arrays example_memory 0 = Some [1, 2, 3, 4, 5, 6, 7, 8]"
    by (simp_all add: example_device_def example_memory_def good_def fs_good_def open_stream_def)
  have z: "even (unat (1 * blocksize 4 :: size_t))" "0 \<le> sint (1 * blocksize 4 :: size_t)"
    "unat (1 * blocksize 4 :: size_t) \<le> length [1, 2, 3, 4, 5, 6, 7, 8 :: byte]"
    "even (unat (2 * blocksize 4 :: size_t))" "0 \<le> sint (2 * blocksize 4 :: size_t)"
    "unat (2 * blocksize 4 :: size_t) \<le> length [1, 2, 3, 4, 5, 6, 7, 8 :: byte]"
    "0 \<le> sint (0 * blocksize 4 :: size_t)"
    by (simp_all add: blocksize_def)
  from multiwrite_effect [OF h(1) wf h(2) z(3) z(1) z(2) z(2)]
  obtain b' m' where w: "write_op 4 1 0 (example_device, example_memory) = Some (b', m')"
    by (auto simp: write_is_multiwrite)
  from multiwrite_effect [OF h(1) wf h(2) z(6) z(4) z(7) z(5)]
  obtain b'' m'' where mw: "multiwrite 4 0 2 0 (example_device, example_memory) = Some (b'', m'')"
    by auto
  from write_keeps_caller_buffer [OF wf, where BS = 4 and index = 1 and data = 0
      and b = example_device and b' = b' and m' = m'] w
  have "arrays m' = arrays example_memory" by simp
  moreover
  from write_keeps_caller_buffer [OF wf, where BS = 4 and index = 0 and data = 0
      and b = example_device and count = 2 and b'' = b'' and m'' = m''] mw
  have "arrays m'' = arrays example_memory" by simp
  ultimately show ?thesis using wf w mw h(2) by simp
qed

section \<open>Health\<close>

lemma exec_fail_latches:
  "exec BS x (b, m) = Some (b', m') \<Longrightarrow> fs_fail (m_file b) \<Longrightarrow> fs_fail (m_file b')"
  by (cases x)
    (auto simp: op_defs fs_fail_def fs_good_def Let_def split: Option.bind_splits if_splits)

lemma exec_eof_with_fail:
  "exec BS x (b, m) = Some (b', m') \<Longrightarrow> eofbit (m_file b) \<longrightarrow> fs_fail (m_file b) \<Longrightarrow>
   eofbit (m_file b') \<longrightarrow> fs_fail (m_file b')"
  by (cases x)
    (auto simp: op_defs fs_fail_def fs_good_def Let_def split: Option.bind_splits if_splits)

lemma run_fail_latches:
  "run BS ops s = Some s' \<Longrightarrow> fs_fail (m_file (fst s)) \<Longrightarrow> fs_fail (m_file (fst s'))"
proof (induction ops arbitrary: s)
  case Nil
  then show ?case by simp
next
  case (Cons x ops)
  from Cons.prems(1) obtain s1 where x: "exec BS x s = Some s1" and r: "run BS ops s1 = Some s'"
    by (auto split: option.splits)
  from exec_fail_latches [of BS x "fst s" "snd s" "fst s1" "snd s1"] x Cons.prems(2)
  have "fs_fail (m_file (fst s1))" by simp
  with Cons.IH [OF r] show ?case .
qed

lemma run_eof_with_fail:
  "run BS ops s = Some s' \<Longrightarrow> eofbit (m_file (fst s)) \<longrightarrow> fs_fail (m_file (fst s)) \<Longrightarrow>
   eofbit (m_file (fst s')) \<longrightarrow> fs_fail (m_file (fst s'))"
proof (induction ops arbitrary: s)
  case Nil
  then show ?case by simp
next
  case (Cons x ops)
  from Cons.prems(1) obtain s1 where x: "exec BS x s = Some s1" and r: "run BS ops s1 = Some s'"
    by (auto split: option.splits)
  from exec_eof_with_fail [of BS x "fst s" "snd s" "fst s1" "snd s1"] x Cons.prems(2)
  have "eofbit (m_file (fst s1)) \<longrightarrow> fs_fail (m_file (fst s1))" by simp
  with Cons.IH [OF r] show ?case .
qed

text \<open>
  The two ways a transfer fails in this model: the offset \<open>index * blocksize()\<close>, read as
  a \<open>streamoff\<close>, is negative and the seek is refused; or the file ends before the last
  byte a read asks for. Either leaves \<open>good()\<close> false.
\<close>

lemma refused_seek_not_good:
  assumes "sint (index * blocksize BS) < 0"
    and "exec BS x (b, m) = Some (b', m')"
    and "x = Read index d \<or> x = Write index d \<or> x = MultiRead index count d
         \<or> x = MultiWrite index count d"
  shows "\<not> good b'"
  using assms
  by (auto simp: op_defs good_def fs_fail_def fs_good_def Let_def
      split: Option.bind_splits if_splits)

lemma short_read_not_good:
  assumes "length (bytes (m_file b)) - unat (index * blocksize BS) < unat (count * blocksize BS)"
    and "multiread BS index count d (b, m) = Some (b', m')"
  shows "\<not> good b'"
proof (cases "0 \<le> sint (count * blocksize BS)")
  case True
  then have "sint (count * blocksize BS) = int (unat (count * blocksize BS))"
    by (rule sint_nonneg64)
  with assms(1)
  have "int (length (bytes (m_file b)) - unat (index * blocksize BS)) \<noteq> sint (count * blocksize BS)"
    by linarith
  with assms show ?thesis
    by (auto simp: op_defs good_def fs_fail_def fs_good_def Let_def min_def
      split: Option.bind_splits if_splits)
next
  case False
  with assms show ?thesis
    by (auto simp: op_defs good_def fs_fail_def fs_good_def Let_def
      split: Option.bind_splits if_splits)
qed

text \<open>
  C9. Health latching. From a good device, once a sequence of operations has left
  \<open>good()\<close> false, \<open>good()\<close> is false after every further sequence of operations. An
  operation returns no value: what a refused seek or a short read leaves behind is the
  state of the stream (\<open>refused_seek_not_good\<close>, \<open>short_read_not_good\<close>), which
  \<open>good()\<close> reads. In the instance that follows, a read past the end of the file fails,
  and a write, a read, a flush and a trim later \<open>good()\<close> is still false and the file
  unchanged.
\<close>

theorem health_latching:
  assumes "good b0"
    and "run BS ops1 (b0, m0) = Some s1" and "\<not> good (fst s1)"
    and "run BS ops2 s1 = Some s2"
  shows "\<not> good (fst s2)"
proof -
  have "eofbit (m_file (fst (b0, m0))) \<longrightarrow> fs_fail (m_file (fst (b0, m0)))"
    using assms(1) by (simp add: good_def fs_good_def)
  with run_eof_with_fail [OF assms(2)]
  have "eofbit (m_file (fst s1)) \<longrightarrow> fs_fail (m_file (fst s1))" by blast
  with assms(3) have "fs_fail (m_file (fst s1))"
    by (auto simp: good_def fs_good_def fs_fail_def)
  with run_fail_latches [OF assms(4)] have "fs_fail (m_file (fst s2))" by blast
  then show ?thesis by (auto simp: good_def fs_good_def fs_fail_def)
qed

theorem health_latching_witness:
  "good example_device \<and>
   (\<exists>s1 s2. run 4 [Read 5 1] (example_device, example_memory) = Some s1 \<and> \<not> good (fst s1) \<and>
      run 4 [Write 0 0, Read 0 1, Flush, Trim 0 1] s1 = Some s2 \<and> \<not> good (fst s2) \<and>
      bytes (m_file (fst s2)) = bytes (m_file example_device))"
proof -
  let ?s1 = "(example_device\<lparr>m_file := (m_file example_device)\<lparr>pos := 20, eofbit := True, failbit := True\<rparr>\<rparr>,
             example_memory\<lparr>arrays := (arrays example_memory)(1 \<mapsto> [9, 9, 9, 9, 9, 9, 9, 9])\<rparr>)"
  let ?s2 = "(example_device\<lparr>m_file := (m_file example_device)\<lparr>pos := 20, eofbit := False, failbit := True\<rparr>\<rparr>,
             example_memory\<lparr>arrays := (arrays example_memory)(1 \<mapsto> [9, 9, 9, 9, 9, 9, 9, 9], 2 := None), lim := 3\<rparr>)"
  have g: "good example_device"
    by (simp add: example_device_def good_def fs_good_def open_stream_def)
  have r1: "run 4 [Read 5 1] (example_device, example_memory) = Some ?s1"
    by (simp add: op_defs fs_fail_def fs_good_def Let_def example_device_def example_memory_def
        open_stream_def blocksize_def bswap_loop.simps)
  have n1: "\<not> good (fst ?s1)"
    by (simp add: good_def fs_good_def)
  have r2: "run 4 [Write 0 0, Read 0 1, Flush, Trim 0 1] ?s1 = Some ?s2"
    by (simp add: op_defs fs_fail_def fs_good_def Let_def example_device_def example_memory_def
        open_stream_def blocksize_def bswap_loop.simps)
  from health_latching [OF g r1 n1 r2] have "\<not> good (fst ?s2)" .
  with g r1 n1 r2 show ?thesis
    by (intro conjI exI [of _ ?s1] exI [of _ ?s2]) simp_all
qed

section \<open>The constructor\<close>

lemma sint_of_nat_off_t:
  assumes "n \<le> off_t_max" shows "sint (of_nat n :: 64 word) = int n"
proof -
  have "n < 2 ^ 63" using assms by (simp add: off_t_max_def)
  then have "n < 2 ^ 64" by simp
  then have u: "unat (of_nat n :: 64 word) = n" by (simp add: unat_of_nat)
  with \<open>n < 2 ^ 63\<close> sint_small64 [of "of_nat n"] show ?thesis by simp
qed

lemma sint_pos_unat:
  assumes "0 < sint (w :: 64 word)" shows "0 < unat w" and "unat w < 2 ^ 63"
proof -
  have "0 \<le> sint w" using assms by linarith
  then have nn: "sint w = int (unat w)" by (rule sint_nonneg64)
  with assms have "0 < int (unat w)" by linarith
  then show "0 < unat w" by (simp only: of_nat_0_less_iff)
  show "unat w < 2 ^ 63"
    using assms sint_large64 [of w] by (metis not_le not_less order_less_asym)
qed

lemma sint_minus_1:
  assumes "0 < sint (w :: 64 word)" shows "0 \<le> sint (w - 1)" and "unat (w - 1) = unat w - 1"
proof -
  note pos = sint_pos_unat(1) [OF assms] and lt = sint_pos_unat(2) [OF assms]
  from pos have "1 \<le> w" by (simp add: word_le_nat_alt)
  then show u: "unat (w - 1) = unat w - 1" by (simp add: unat_sub)
  with lt have "unat (w - 1) < 2 ^ 63" by simp
  then show "0 \<le> sint (w - 1)" by (simp add: sint_small64)
qed

text \<open>What the constructor returns, case by case of the file system entry.\<close>

lemma construct_existing_infer:
  assumes "fs fname = Existing c" "length c \<le> off_t_max"
  shows "construct BS fs fname 0 =
     (if c = [] then Inl (Exit 1 EmptyNoSize)
      else if blocksize BS = 0 then Inl DivisionByZero
      else Inr \<lparr>m_file = (open_stream c)\<lparr>pos := length c\<rparr>,
                m_nblocks = ucast (of_nat (length c) div blocksize BS)\<rparr>)"
  using assms sint_of_nat_off_t [OF assms(2)]
  by (simp add: construct_def open_stream_def fs_fail_def tellg_def seekg_end_def Let_def)

lemma construct_existing_sized:
  assumes "fs fname = Existing c" "length c \<le> off_t_max" "nblocks \<noteq> 0"
  shows "construct BS fs fname nblocks =
     Inr \<lparr>m_file =
            (if int (length c) < sint (nblocks * blocksize BS)
             then (open_stream c)\<lparr>bytes := pwrite (unat (nblocks * blocksize BS) - 1) [0] c,
                                   pos := unat (nblocks * blocksize BS)\<rparr>
             else (open_stream c)\<lparr>pos := length c\<rparr>),
          m_nblocks = ucast nblocks\<rparr>"
proof (cases "int (length c) < sint (nblocks * blocksize BS)")
  case False
  with assms sint_of_nat_off_t [OF assms(2)] show ?thesis
    by (simp add: construct_def open_stream_def fs_fail_def tellg_def seekg_end_def Let_def)
next
  case True
  then have pos: "0 < sint (nblocks * blocksize BS)" by linarith
  note m1 = sint_minus_1 [OF pos]
  from pos have "0 < unat (nblocks * blocksize BS)"
    by (rule sint_pos_unat)
  with True assms sint_of_nat_off_t [OF assms(2)] m1 show ?thesis
    by (simp add: construct_def open_stream_def fs_fail_def fs_good_def tellg_def seekg_end_def
        seekp_def fs_put_def Let_def)
qed

lemma construct_creatable:
  assumes "fs fname = Creatable"
  shows "construct BS fs fname nblocks =
     (if nblocks = 0 then Inl (Exit 1 CouldNotOpen)
      else Inr \<lparr>m_file =
            (if 0 < sint (nblocks * blocksize BS)
             then (open_stream [])\<lparr>bytes := pwrite (unat (nblocks * blocksize BS) - 1) [0] [],
                                   pos := unat (nblocks * blocksize BS)\<rparr>
             else open_stream []),
          m_nblocks = ucast nblocks\<rparr>)"
proof (cases "0 < sint (nblocks * blocksize BS)")
  case False
  with assms show ?thesis
    by (simp add: construct_def open_stream_def closed_stream_def fs_fail_def Let_def)
next
  case True
  note m1 = sint_minus_1 [OF True]
  from True have "0 < unat (nblocks * blocksize BS)"
    by (rule sint_pos_unat)
  with True assms m1 show ?thesis
    by (simp add: construct_def open_stream_def closed_stream_def fs_fail_def fs_good_def
        seekp_def fs_put_def Let_def)
qed

lemma construct_inaccessible:
  assumes "fs fname = Inaccessible"
  shows "construct BS fs fname nblocks =
     Inl (Exit 1 (if nblocks = 0 then CouldNotOpen else CouldNotCreate))"
  using assms by (simp add: construct_def closed_stream_def fs_fail_def Let_def)

text \<open>
  When the constructor ends the process. For a block size other than 0 and a file whose
  size is an \<open>off_t\<close>, it does so (\<open>exit(1)\<close> after a diagnostic, no object) if and only if
  the file does not open and no block count is given, or the file neither opens nor can
  be created, or the file opens, is empty and no block count is given. Otherwise it
  returns an object whose stream is good.
\<close>

lemma construct_exit_iff:
  assumes "BS \<noteq> 0" and "file_size (fs fname) \<le> off_t_max"
  shows "((\<exists>d. construct BS fs fname nblocks = Inl (Exit 1 d)) \<longleftrightarrow>
            (\<not> openable (fs fname) \<and> nblocks = 0) \<or>
            (\<not> openable (fs fname) \<and> \<not> creatable (fs fname)) \<or>
            (openable (fs fname) \<and> file_size (fs fname) = 0 \<and> nblocks = 0))
       \<and> ((\<exists>d. construct BS fs fname nblocks = Inl (Exit 1 d)) \<or>
          (\<exists>b. construct BS fs fname nblocks = Inr b \<and> good b))"
proof -
  have bs: "blocksize BS \<noteq> 0"
    using assms(1) unat_blocksize [of BS] by (metis unat_eq_zero)
  show ?thesis
  proof (cases "fs fname")
    case (Existing c)
    with assms(2) have le: "length c \<le> off_t_max" by simp
    show ?thesis
    proof (cases "nblocks = 0")
      case True
      with Existing construct_existing_infer [of fs fname c BS, OF Existing le] bs show ?thesis
        by (auto simp: good_def fs_good_def open_stream_def)
    next
      case False
      with Existing construct_existing_sized [of fs fname c nblocks BS, OF Existing le False] show ?thesis
        by (auto simp: good_def fs_good_def open_stream_def)
    qed
  next
    case Creatable
    with construct_creatable [of fs fname BS nblocks, OF Creatable] show ?thesis
      by (auto simp: good_def fs_good_def open_stream_def)
  next
    case Inaccessible
    with construct_inaccessible [of fs fname BS nblocks, OF Inaccessible] show ?thesis
      by auto
  qed
qed

lemma construct_exit_examples:
  "(4 :: c_unsigned) \<noteq> 0 \<and>
   file_size (Existing []) \<le> off_t_max \<and> file_size Creatable \<le> off_t_max \<and>
   file_size Inaccessible \<le> off_t_max \<and>
   construct 4 (\<lambda>_. Existing []) ''disk.img'' 0 = Inl (Exit 1 EmptyNoSize) \<and>
   construct 4 (\<lambda>_. Creatable) ''disk.img'' 0 = Inl (Exit 1 CouldNotOpen) \<and>
   construct 4 (\<lambda>_. Inaccessible) ''disk.img'' 2 = Inl (Exit 1 CouldNotCreate) \<and>
   (\<exists>b. construct 4 (\<lambda>_. Creatable) ''disk.img'' 2 = Inr b \<and> good b \<and>
        bytes (m_file b) = [0, 0, 0, 0, 0, 0, 0, 0] \<and> numblocks b = 2)"
proof -
  have h: "(4 :: c_unsigned) \<noteq> 0" "file_size (Existing []) \<le> off_t_max"
    "file_size Creatable \<le> off_t_max" "file_size Inaccessible \<le> off_t_max"
    by (simp_all add: off_t_max_def)
  from construct_exit_iff [of 4 "\<lambda>_. Existing []" "''disk.img''" 0] h
  have "\<exists>d. construct 4 (\<lambda>_. Existing []) ''disk.img'' 0 = Inl (Exit 1 d)" by simp
  moreover
  have e: "construct 4 (\<lambda>_. Existing []) ''disk.img'' 0 = Inl (Exit 1 EmptyNoSize)"
    "construct 4 (\<lambda>_. Creatable) ''disk.img'' 0 = Inl (Exit 1 CouldNotOpen)"
    "construct 4 (\<lambda>_. Inaccessible) ''disk.img'' 2 = Inl (Exit 1 CouldNotCreate)"
    by (simp_all add: construct_def open_stream_def closed_stream_def fs_fail_def tellg_def
        seekg_end_def Let_def)
  from construct_exit_iff [of 4 "\<lambda>_. Creatable" "''disk.img''" 2] h
  obtain b where b: "construct 4 (\<lambda>_. Creatable) ''disk.img'' 2 = Inr b" "good b"
    by auto
  have r7: "replicate 7 (0 :: byte) = [0, 0, 0, 0, 0, 0, 0]"
    by (simp add: numeral_eq_Suc)
  have "construct 4 (\<lambda>_. Creatable) ''disk.img'' 2 =
      Inr \<lparr>m_file = (open_stream [])\<lparr>bytes := [0, 0, 0, 0, 0, 0, 0, 0], pos := 8\<rparr>, m_nblocks = 2\<rparr>"
    by (simp add: construct_def open_stream_def closed_stream_def fs_fail_def fs_good_def
        seekp_def fs_put_def pwrite_def blocksize_def Let_def r7)
  with b have "bytes (m_file b) = [0, 0, 0, 0, 0, 0, 0, 0]" "numblocks b = 2"
    by (auto simp: numblocks_def)
  with b e h show ?thesis by simp
qed

lemma scast_ucast_small:
  assumes "unat (n :: 64 word) < 2 ^ 31"
  shows "(scast (ucast n :: 32 word) :: 64 word) = n"
proof -
  have "int (unat n) < int (2 ^ 31)" using assms by (simp only: of_nat_less_iff)
  then have lt: "uint n < 2 ^ 31" by (simp only: uint_nat) simp
  have ge: "- (2 ^ 31) \<le> uint n" by (rule order_trans [of _ 0]) simp_all
  have "sint (ucast n :: 32 word) = signed_take_bit 31 (uint n)"
    by (simp add: signed_ucast_eq)
  also have "\<dots> = uint n" using ge lt by (rule signed_take_bit_int_eq_self)
  finally have "sint (ucast n :: 32 word) = uint n" .
  then show ?thesis by (simp add: scast_eq)
qed

lemma numblocks_small:
  "unat (n :: 64 word) < 2 ^ 31 \<Longrightarrow> numblocks \<lparr>m_file = f, m_nblocks = ucast n\<rparr> = n"
  by (simp add: numblocks_def scast_ucast_small)

text \<open>Below \<open>2^31\<close> blocks the constructor infers the block count from the file size.\<close>

lemma construct_infers_blocks:
  assumes "fs fname = Existing c" "length c \<le> off_t_max" "BS \<noteq> 0" "c \<noteq> []"
    and "length c div unat BS < 2 ^ 31"
  shows "\<exists>b. construct BS fs fname 0 = Inr b \<and> good b \<and>
             unat (numblocks b) = length c div unat BS \<and> bytes (m_file b) = c \<and>
             size_covered BS b"
proof -
  have bs: "blocksize BS \<noteq> 0"
    using assms(3) unat_blocksize [of BS] by (metis unat_eq_zero)
  have "length c < 2 ^ 64" using assms(2) by (simp add: off_t_max_def)
  then have u: "unat (of_nat (length c) :: 64 word) = length c" by (simp add: unat_of_nat)
  have d: "unat (of_nat (length c) div blocksize BS :: 64 word) = length c div unat BS"
    by (simp only: unat_div u unat_blocksize)
  let ?b = "\<lparr>m_file = (open_stream c)\<lparr>pos := length c\<rparr>,
             m_nblocks = ucast (of_nat (length c) div blocksize BS :: 64 word)\<rparr>"
  have c: "construct BS fs fname 0 = Inr ?b"
    using construct_existing_infer [of fs fname c BS, OF assms(1,2)] assms(4) bs by simp
  have nb: "numblocks ?b = of_nat (length c) div blocksize BS"
    using assms(5) d by (simp only: numblocks_small)
  have "good ?b" by (simp add: good_def fs_good_def open_stream_def)
  moreover have "unat (numblocks ?b) = length c div unat BS" by (simp only: nb d)
  moreover have "bytes (m_file ?b) = c" by (simp add: open_stream_def)
  moreover have "size_covered BS ?b"
    unfolding size_covered_def nb d unat_blocksize by (simp add: open_stream_def)
  ultimately show ?thesis using c by blast
qed

text \<open>
  Below \<open>2^31\<close> blocks and \<open>2^63\<close> bytes the constructor grows a file that is too short
  by zero bytes up to the size asked for, and leaves a file that is long enough alone.
\<close>

lemma construct_grows:
  assumes "fs fname = Existing c" "length c \<le> off_t_max" "nblocks \<noteq> 0"
    and "unat nblocks < 2 ^ 31" and "unat nblocks * unat BS \<le> off_t_max"
  shows "\<exists>b. construct BS fs fname nblocks = Inr b \<and> good b \<and> numblocks b = nblocks \<and>
             bytes (m_file b) = c @ replicate (unat nblocks * unat BS - length c) 0 \<and>
             size_covered BS b"
proof -
  let ?tot = "nblocks * blocksize BS"
  have "unat nblocks * unat (blocksize BS) < 2 ^ 64"
    using assms(5) by (simp add: off_t_max_def unat_blocksize)
  then have tot: "unat ?tot = unat nblocks * unat BS"
    by (simp add: unat_mult64 unat_blocksize)
  have "unat ?tot < 2 ^ 63" using assms(5) tot by (simp add: off_t_max_def)
  then have st: "sint ?tot = int (unat nblocks * unat BS)" using tot by (simp only: sint_small64)
  let ?f = "if length c < unat nblocks * unat BS
             then (open_stream c)\<lparr>bytes := pwrite (unat nblocks * unat BS - 1) [0] c,
                                   pos := unat nblocks * unat BS\<rparr>
             else (open_stream c)\<lparr>pos := length c\<rparr>"
  let ?b = "\<lparr>m_file = ?f, m_nblocks = ucast nblocks\<rparr>"
  have c: "construct BS fs fname nblocks = Inr ?b"
    using construct_existing_sized [of fs fname c nblocks BS, OF assms(1-3)]
    by (simp only: st tot of_nat_less_iff)
  have nb: "numblocks ?b = nblocks" using assms(4) by (rule numblocks_small)
  have g: "good ?b" by (simp add: good_def fs_good_def open_stream_def)
  have bts: "bytes ?f = c @ replicate (unat nblocks * unat BS - length c) 0"
  proof (cases "length c < unat nblocks * unat BS")
    case False
    then show ?thesis by (simp add: open_stream_def)
  next
    case True
    then have "replicate (unat nblocks * unat BS - length c) (0 :: byte)
        = replicate (unat nblocks * unat BS - 1 - length c) 0 @ [0]"
      by (metis Suc_diff_Suc diff_Suc_eq_diff_pred replicate_Suc replicate_append_same
          diff_commute diff_diff_left plus_1_eq_Suc)
    with True show ?thesis by (simp add: open_stream_def pwrite_def)
  qed
  have "size_covered BS ?b"
    unfolding size_covered_def nb unat_blocksize using bts by simp
  with c g nb bts show ?thesis by (intro exI [of _ ?b]) simp
qed

lemma exec_never_shrinks:
  "exec BS x (b, m) = Some (b', m') \<Longrightarrow>
   length (bytes (m_file b)) \<le> length (bytes (m_file b')) \<and> m_nblocks b' = m_nblocks b"
  by (cases x)
    (auto simp: op_defs length_pwrite fs_fail_def fs_good_def Let_def
      split: Option.bind_splits if_splits)

lemma run_never_shrinks:
  "run BS ops s = Some s' \<Longrightarrow>
   length (bytes (m_file (fst s))) \<le> length (bytes (m_file (fst s'))) \<and>
   m_nblocks (fst s') = m_nblocks (fst s)"
proof (induction ops arbitrary: s)
  case Nil
  then show ?case by simp
next
  case (Cons x ops)
  from Cons.prems(1) obtain s1 where x: "exec BS x s = Some s1" and r: "run BS ops s1 = Some s'"
    by (auto split: option.splits)
  from exec_never_shrinks [of BS x "fst s" "snd s" "fst s1" "snd s1"] x Cons.IH [OF r]
  show ?case by simp
qed

lemma run_keeps_size_covered:
  "run BS ops s = Some s' \<Longrightarrow> size_covered BS (fst s) \<Longrightarrow> size_covered BS (fst s')"
  using run_never_shrinks [of BS ops s s'] by (auto simp: size_covered_def numblocks_def)


section \<open>Block counts from \<open>2^31\<close> on\<close>

text \<open>
  C3. Sizing inference, at a file of \<open>2^31\<close> blocks of 512 bytes (1 TiB) and no block count
  given: the constructor returns, and \<open>numblocks()\<close> is \<open>0xFFFFFFFF80000000\<close>, not \<open>2^31\<close>.
  The quotient is stored in the \<open>int\<close> member \<open>_nblocks\<close>, which keeps its low 32 bits, and
  \<open>numblocks()\<close> sign-extends that to \<open>size_t\<close>. Below \<open>2^31\<close> blocks the count is the
  quotient (\<open>construct_infers_blocks\<close>).
\<close>

theorem sizing_inference_truncates:
  "\<exists>b. construct 512 (\<lambda>_. Existing (replicate (2 ^ 31 * 512) 0)) ''disk.img'' 0 = Inr b \<and>
       length (bytes (m_file b)) = 2 ^ 31 * 512 \<and>
       numblocks b = 0xFFFFFFFF80000000 \<and> numblocks b \<noteq> 2 ^ 31"
  by (simp add: construct_def open_stream_def fs_fail_def tellg_def seekg_end_def Let_def
      blocksize_def numblocks_def)

text \<open>
  C4. Growth on demand, at a file of 512 bytes and \<open>2^31\<close> blocks of 512 bytes asked for:
  the file is grown to \<open>2^31 * 512\<close> bytes, and \<open>numblocks()\<close> is \<open>0xFFFFFFFF80000000\<close>,
  not the count asked for. Below \<open>2^31\<close> blocks the count is the one asked for and the
  file is the old one followed by zero bytes (\<open>construct_grows\<close>).
\<close>

theorem growth_truncates_block_count:
  "\<exists>b. construct 512 (\<lambda>_. Existing (replicate 512 0xFF)) ''disk.img'' (2 ^ 31) = Inr b \<and>
       length (bytes (m_file b)) = 2 ^ 31 * 512 \<and>
       numblocks b = 0xFFFFFFFF80000000 \<and> numblocks b \<noteq> 2 ^ 31"
  by (simp add: construct_def open_stream_def fs_fail_def fs_good_def tellg_def seekg_end_def
      seekp_def fs_put_def pwrite_def Let_def blocksize_def numblocks_def)

text \<open>
  C6. Size coverage after construction, at a new file: with \<open>2^54 + 2\<close> blocks of 512
  bytes asked for, the size \<open>nblocks * blocksize()\<close> read as a \<open>streamoff\<close> is negative,
  the file is not grown and stays empty, and \<open>numblocks()\<close> is 2; with \<open>2^31\<close> blocks
  asked for, the file is grown to \<open>2^31 * 512\<close> bytes and \<open>numblocks()\<close> is
  \<open>0xFFFFFFFF80000000\<close>. In both the file is shorter than \<open>numblocks() * blocksize()\<close>.
  The operations themselves never shorten the file nor change the count
  (\<open>run_never_shrinks\<close>, \<open>run_keeps_size_covered\<close>).
\<close>

theorem size_coverage_broken_by_overflow:
  "(\<exists>b. construct 512 (\<lambda>_. Creatable) ''disk.img'' (2 ^ 54 + 2) = Inr b \<and>
       bytes (m_file b) = [] \<and> numblocks b = 2 \<and> \<not> size_covered 512 b) \<and>
   (\<exists>b. construct 512 (\<lambda>_. Creatable) ''disk.img'' (2 ^ 31) = Inr b \<and>
       length (bytes (m_file b)) = 2 ^ 31 * 512 \<and> numblocks b = 0xFFFFFFFF80000000 \<and>
       \<not> size_covered 512 b)"
  by (simp add: construct_def open_stream_def closed_stream_def fs_fail_def fs_good_def
      seekp_def fs_put_def pwrite_def Let_def blocksize_def numblocks_def size_covered_def)

lemma block_memory_facts:
  "wf_memory block_memory"
  "arrays block_memory 0 = Some (replicate 512 0xAB)"
  "arrays block_memory 1 = Some (replicate 512 0)"
  by (simp_all add: block_memory_def wf_memory_def)


text \<open>
  C5. The object the constructor returns, at a new file and \<open>2^54 + 2\<close> blocks of 512
  bytes asked for: none of the three fatal cases holds and an object is returned with a
  good stream, but its file is empty, \<open>numblocks()\<close> is not the count asked for, the file
  does not cover the blocks it reports, and a read of the in-range block 0 leaves
  \<open>good()\<close> false. The process ends exactly in the three cases (\<open>construct_exit_iff\<close>),
  and below \<open>2^31\<close> blocks and \<open>2^63\<close> bytes the object returned reports the count and its
  file covers it (\<open>construct_infers_blocks\<close>, \<open>construct_grows\<close>).
\<close>

theorem construct_returns_uncovered_object:
  "\<exists>b. construct 512 (\<lambda>_. Creatable) ''disk.img'' (2 ^ 54 + 2) = Inr b \<and> good b \<and>
       bytes (m_file b) = [] \<and> numblocks b \<noteq> 2 ^ 54 + 2 \<and>
       in_range b 0 1 \<and> \<not> size_covered 512 b \<and>
       (\<exists>b' m'. read 512 0 1 (b, block_memory) = Some (b', m') \<and> \<not> good b')"
proof -
  let ?b = "\<lparr>m_file = open_stream [], m_nblocks = ucast (2 ^ 54 + 2 :: size_t)\<rparr>"
  have c: "construct 512 (\<lambda>_. Creatable) ''disk.img'' (2 ^ 54 + 2) = Inr ?b"
    by (simp add: construct_creatable blocksize_def)
  have f: "good ?b" "bytes (m_file ?b) = []" "numblocks ?b \<noteq> 2 ^ 54 + 2"
    "in_range ?b 0 1" "\<not> size_covered 512 ?b"
    by (simp_all add: good_def fs_good_def open_stream_def numblocks_def in_range_def
        size_covered_def blocksize_def)
  from bswap_loop_total [of 0 512 "replicate 512 (0 :: byte)"]
  obtain R where R: "bswap_loop 0 512 (replicate 512 (0 :: byte)) = Some R" by auto
  have rd: "read 512 0 1 (?b, block_memory) =
      Some (?b\<lparr>m_file := (open_stream [])\<lparr>eofbit := True, failbit := True\<rparr>\<rparr>,
            block_memory\<lparr>arrays := (arrays block_memory)(1 \<mapsto> R)\<rparr>)"
    using R block_memory_facts(3)
    by (simp add: op_defs fs_good_def fs_fail_def Let_def open_stream_def blocksize_def)
  have "\<not> good (?b\<lparr>m_file := (open_stream [])\<lparr>eofbit := True, failbit := True\<rparr>\<rparr>)"
    by (simp add: good_def fs_good_def)
  with c f rd show ?thesis by blast
qed

end
